theory Spec2Isabelle
  imports Complex_Main "HOL-Library.Multiset"
begin

section \<open>Quaoar ring occultation simulator: arrays and errors\<close>

text \<open>
  The program is a numpy script. Its IEEE doubles are idealised as the real numbers and
  its complex doubles as the complex numbers, so every statement below is one of exact
  arithmetic. A two-dimensional numpy array is a list of rows of equal length.

  Python exceptions are values of \<open>error\<close>. \<open>NonFinite\<close> is not an exception: it marks the
  runs in which numpy goes on with a nan or an infinity (the square root of a negative
  number, a division by a zero baseline, the median of an empty window). Those values
  have no counterpart among the reals, so the model stops there and says so.
\<close>

datatype error = ZeroDivisionError | ValueError | IndexError | NonFinite

definition nrows :: "'a list list \<Rightarrow> nat" where
  "nrows A = length A"

definition ncols :: "'a list list \<Rightarrow> nat" where
  "ncols A = (case A of [] \<Rightarrow> 0 | row # _ \<Rightarrow> length row)"

definition is_array2 :: "nat \<Rightarrow> nat \<Rightarrow> 'a list list \<Rightarrow> bool" where
  "is_array2 r c A \<longleftrightarrow> length A = r \<and> list_all (\<lambda>row. length row = c) A"

subsection \<open>numpy broadcasting of an elementwise product\<close>

text \<open>
  Two axis lengths are compatible when they are equal or one of them is 1; the axis of
  length 1 is then repeated. Any other pair raises ValueError.
\<close>

definition bdim :: "nat \<Rightarrow> nat \<Rightarrow> nat option" where
  "bdim a b = (if a = b then Some a else if a = 1 then Some b else if b = 1 then Some a else None)"

definition bidx :: "nat \<Rightarrow> nat \<Rightarrow> nat" where
  "bidx n i = (if n = 1 then 0 else i)"

definition bmul :: "complex list list \<Rightarrow> complex list list \<Rightarrow> error + complex list list" where
  "bmul A B =
     (case (bdim (nrows A) (nrows B), bdim (ncols A) (ncols B)) of
        (Some r, Some c) \<Rightarrow>
          Inr (map (\<lambda>i. map (\<lambda>j. A ! bidx (nrows A) i ! bidx (ncols A) j
                                 * B ! bidx (nrows B) i ! bidx (ncols B) j) [0..<c]) [0..<r])
      | _ \<Rightarrow> Inl ValueError)"

subsection \<open>np.roll along one axis\<close>

text \<open>
  \<open>np.roll(a, s)\<close> on an axis of length \<open>n\<close> moves the last \<open>s mod n\<close> elements to the
  front; an empty axis is returned as it is.
\<close>

definition roll :: "nat \<Rightarrow> 'a list \<Rightarrow> 'a list" where
  "roll s xs =
     (let n = length xs in
      if n = 0 then xs else drop (n - s mod n) xs @ take (n - s mod n) xs)"

subsection \<open>scipy.fft.fft2\<close>

text \<open>
  The library routine, by its documented meaning: the unnormalised forward discrete
  Fourier transform over both axes of an \<open>R\<close> by \<open>C\<close> array. An axis of length 0 raises
  ValueError (invalid number of data points).
\<close>

definition dft2 :: "complex list list \<Rightarrow> nat \<Rightarrow> nat \<Rightarrow> complex" where
  "dft2 M k l =
     (\<Sum>r<nrows M. \<Sum>c<ncols M.
        M ! r ! c * exp (- (2 * of_real pi * \<i>)
                         * (of_nat (k * r) / of_nat (nrows M) + of_nat (l * c) / of_nat (ncols M))))"

definition fft2 :: "complex list list \<Rightarrow> error + complex list list" where
  "fft2 M =
     (if nrows M = 0 \<or> ncols M = 0 then Inl ValueError
      else Inr (map (\<lambda>k. map (\<lambda>l. dft2 M k l) [0..<ncols M]) [0..<nrows M]))"

section \<open>occ\_lc: the observers' plane intensity field\<close>

definition eTerm :: "nat \<Rightarrow> nat \<Rightarrow> complex list list" where
  "eTerm npts n2 =
     map (\<lambda>r. map (\<lambda>c. exp ((of_real pi * \<i>) / of_nat npts
                             * of_real ((real r - real n2)\<^sup>2 + (real c - real n2)\<^sup>2)))
                   [0..<npts]) [0..<npts]"

definition occ_lc :: "complex list list \<Rightarrow> error + real list list" where
  "occ_lc ap =
     (let npts = nrows ap; n2 = npts div 2 in
      if npts = 0 then Inl ZeroDivisionError
      else case bmul ap (eTerm npts n2) of
             Inl e \<Rightarrow> Inl e
           | Inr M \<Rightarrow>
               (case fft2 M of
                  Inl e \<Rightarrow> Inl e
                | Inr E_obs \<Rightarrow>
                    (let pObs = map (map (\<lambda>z. Re (z * cnj z))) E_obs
                     in Inr (map (roll n2) (roll n2 pObs)))))"

section \<open>RingSeg\_ap: the aperture of a ring segment\<close>

text \<open>
  \<open>np.sqrt\<close> of a negative double is nan (with a warning, no exception).
\<close>

definition np_sqrt :: "real \<Rightarrow> error + real" where
  "np_sqrt x = (if x < 0 then Inl NonFinite else Inr (sqrt x))"

text \<open>
  The transmission function \<open>t_r\<close> is called once, on the array of the in-ring offsets.
  It is modelled as a function of one offset that may raise, applied to each element
  in order (as an interpolating function is); the first error is the error of the call.
\<close>

fun map_err :: "('a \<Rightarrow> error + 'b) \<Rightarrow> 'a list \<Rightarrow> error + 'b list" where
  "map_err f [] = Inr []"
| "map_err f (x # xs) =
     (case f x of
        Inl e \<Rightarrow> Inl e
      | Inr y \<Rightarrow> (case map_err f xs of Inl e \<Rightarrow> Inl e | Inr ys \<Rightarrow> Inr (y # ys)))"

definition outer :: "real list \<Rightarrow> real list \<Rightarrow> real list list" where
  "outer ys xs = map (\<lambda>y. map (\<lambda>x. y * x) xs) ys"

text \<open>
  Boolean-mask indexing: \<open>A[mask]\<close> is the list of the selected cells in row-major order,
  and \<open>A[mask] = vals\<close> writes the values back in the same order. The number of values
  must be the number of selected cells (ValueError otherwise).
\<close>

definition bool_index :: "bool list list \<Rightarrow> 'a list list \<Rightarrow> 'a list" where
  "bool_index msk A = map snd (filter fst (zip (concat msk) (concat A)))"

fun scatter :: "bool list \<Rightarrow> 'a list \<Rightarrow> 'a list \<Rightarrow> 'a list" where
  "scatter (m # ms) (b # bs) vs =
     (if m then (case vs of [] \<Rightarrow> b # scatter ms bs [] | v # vs' \<Rightarrow> v # scatter ms bs vs')
      else b # scatter ms bs vs)"
| "scatter _ bs _ = bs"

fun unflatten :: "nat \<Rightarrow> nat \<Rightarrow> 'a list \<Rightarrow> 'a list list" where
  "unflatten 0 c xs = []"
| "unflatten (Suc r) c xs = take c xs # unflatten r c (drop c xs)"

definition bool_assign :: "bool list list \<Rightarrow> 'a list list \<Rightarrow> 'a list \<Rightarrow> error + 'a list list" where
  "bool_assign msk A vals =
     (if length vals \<noteq> length (filter id (concat msk)) then Inl ValueError
      else Inr (unflatten (nrows A) (ncols A) (scatter (concat msk) (concat A) vals)))"

text \<open>
  \<open>npts\<close> is a Python int. Zero makes \<open>D/npts\<close> raise ZeroDivisionError; a negative
  count makes \<open>np.ones(npts)\<close> raise ValueError. The unused half field of view \<open>FOV2\<close> of
  the source is left out.
\<close>

definition RingSeg_ap ::
  "real \<Rightarrow> real \<Rightarrow> int \<Rightarrow> real \<Rightarrow> (real \<Rightarrow> error + real) \<Rightarrow> error + (real list list \<times> real \<times> real)" where
  "RingSeg_ap lam D npts wid t_r =
     (let lam_km = lam * (1 / 10 ^ 9) in
      if npts = 0 then Inl ZeroDivisionError
      else if npts < 0 then Inl ValueError
      else case np_sqrt (lam_km * D / of_int npts) of
             Inl e \<Rightarrow> Inl e
           | Inr gridSz \<Rightarrow>
       (case np_sqrt (lam_km * D * of_int npts) of
             Inl e \<Rightarrow> Inl e
           | Inr FOV \<Rightarrow>
         (let n = nat npts;
              npts2 = n div 2;
              wid2 = 0.5 * wid;
              xv = map (\<lambda>i. of_int (int i - int npts2) * gridSz) [0..<n];
              yv = replicate n 1;
              grid = outer yv xv;
              inAp = map (map (\<lambda>x. \<bar>x\<bar> \<le> wid2)) grid
          in case map_err t_r (bool_index inAp grid) of
               Inl e \<Rightarrow> Inl e
             | Inr vals \<Rightarrow>
                 (case bool_assign inAp (replicate n (replicate n 1)) vals of
                    Inl e \<Rightarrow> Inl e
                  | Inr ap \<Rightarrow> Inr (ap, FOV, gridSz)))))"

section \<open>The caller: baseline normalisation\<close>

text \<open>
  \<open>np.median\<close> sorts the window and takes the middle element, or the mean of the two
  middle elements when the length is even; the median of an empty window is nan.
\<close>

definition np_median :: "real list \<Rightarrow> error + real" where
  "np_median xs =
     (let s = sort xs; n = length xs in
      if n = 0 then Inl NonFinite
      else if even n then Inr ((s ! (n div 2 - 1) + s ! (n div 2)) / 2)
      else Inr (s ! (n div 2)))"

text \<open>
  \<open>bg = np.median(opF[2048, 0:100])\<close>: row 2048 must exist (IndexError otherwise); the
  slice takes at most the first 100 cells of it. \<open>opF = opF/bg\<close> divides every cell.
\<close>

definition baseline :: "real list list \<Rightarrow> error + real" where
  "baseline opF =
     (if nrows opF \<le> 2048 then Inl IndexError else np_median (take 100 (opF ! 2048)))"

definition normalize :: "real list list \<Rightarrow> error + real list list" where
  "normalize opF =
     (case baseline opF of
        Inl e \<Rightarrow> Inl e
      | Inr bg \<Rightarrow> if bg = 0 then Inl NonFinite else Inr (map (map (\<lambda>v. v / bg)) opF))"

section \<open>Auxiliary notions for the statements\<close>

text \<open>
  For a square aperture no axis is repeated, and the product \<open>M = ap*eTerm\<close> of the
  source is the elementwise one.
\<close>

definition modified :: "complex list list \<Rightarrow> nat \<Rightarrow> complex list list" where
  "modified ap n = map (\<lambda>i. map (\<lambda>j. ap ! i ! j * eTerm n (n div 2) ! i ! j) [0..<n]) [0..<n]"


text \<open>
  The field of claim C1, in the words of the specification: the modified aperture \<open>M\<close>
  with the quadratic phase over the centred index grids, its unnormalised forward
  transform \<open>F\<close>, and the squared magnitude read at the cyclically shifted indices.
\<close>

definition spec_M :: "complex list list \<Rightarrow> nat \<Rightarrow> nat \<Rightarrow> nat \<Rightarrow> complex" where
  "spec_M ap npts r c =
     ap ! r ! c * exp (\<i> * of_real (pi / real npts
                         * ((real r - real npts / 2)\<^sup>2 + (real c - real npts / 2)\<^sup>2)))"

definition spec_F :: "complex list list \<Rightarrow> nat \<Rightarrow> nat \<Rightarrow> nat \<Rightarrow> complex" where
  "spec_F ap npts k l =
     (\<Sum>r<npts. \<Sum>c<npts.
        spec_M ap npts r c * exp (- (2 * of_real pi * \<i>) * of_nat (k * r + l * c) / of_nat npts))"

definition spec_P :: "complex list list \<Rightarrow> nat \<Rightarrow> nat \<Rightarrow> nat \<Rightarrow> real" where
  "spec_P ap npts i j =
     (cmod (spec_F ap npts (nat ((int i - int npts div 2) mod int npts))
                           (nat ((int j - int npts div 2) mod int npts))))\<^sup>2"

text \<open>
  The column offsets \<open>xv\<close> of \<open>RingSeg_ap\<close>, and the two steps of the script that produce
  an observers' plane field: \<open>apF1, FOV, gridSz = RingSeg_ap(lam, D, npts, wid, tF1)\<close>
  followed by \<open>opF1 = occ_lc(apF1)\<close>, the real aperture being read as a complex one.
\<close>

definition xv_of :: "real \<Rightarrow> nat \<Rightarrow> real list" where
  "xv_of gridSz n = map (\<lambda>i. of_int (int i - int (n div 2)) * gridSz) [0..<n]"

definition ring_field ::
  "real \<Rightarrow> real \<Rightarrow> int \<Rightarrow> real \<Rightarrow> (real \<Rightarrow> error + real) \<Rightarrow> error + real list list" where
  "ring_field lam D npts wid t_r =
     (case RingSeg_ap lam D npts wid t_r of
        Inl e \<Rightarrow> Inl e
      | Inr (ap, FOV, gridSz) \<Rightarrow> occ_lc (map (map complex_of_real) ap))"

text \<open>
  The first profile of the script, \<open>tF1 = interp1d(wVal, np.exp(-tauFlat01))\<close>: a table of
  100 equal values \<open>exp(-0.1)\<close> over \<open>[-23, 23]\<close>. Linear interpolation between equal values
  is that value, and a point outside the table raises ValueError.
\<close>

definition tF1 :: "real \<Rightarrow> error + real" where
  "tF1 x = (if \<bar>x\<bar> \<le> 23 then Inr (exp (- (1 / 10))) else Inl ValueError)"

section \<open>Facts about the array operations\<close>

lemma length_roll: "length (roll s xs) = length xs"
  by (simp add: roll_def Let_def)

lemma roll_nth:
  assumes "i < length xs"
  shows "roll s xs ! i = xs ! ((i + (length xs - s mod length xs)) mod length xs)"
proof -
  define n where "n = length xs"
  define k where "k = n - s mod n"
  have n: "0 < n" using assms by (cases xs) (auto simp: n_def)
  have k: "k \<le> n" by (simp add: k_def)
  have r: "roll s xs = drop k xs @ take k xs"
    using n by (simp add: roll_def Let_def n_def k_def)
  show ?thesis
  proof (cases "i + k < n")
    case True
    then have "i < n - k" by simp
    then have "(drop k xs @ take k xs) ! i = xs ! (i + k)"
      using k by (simp add: nth_append n_def add.commute)
    moreover have "(i + k) mod n = i + k" using True by simp
    ultimately show ?thesis using r by (simp add: n_def k_def)
  next
    case False
    then have nl: "\<not> i < n - k" by simp
    have "i - (n - k) < k" using assms k nl by (simp add: n_def)
    then have "(drop k xs @ take k xs) ! i = xs ! (i - (n - k))"
      using nl by (simp add: nth_append n_def)
    moreover have "(i + k) mod n = i - (n - k)"
    proof -
      have "(i + k) mod n = (i + k - n) mod n" using False by (simp add: le_mod_geq)
      also have "i + k - n < n" using assms k by (simp add: n_def)
      then have "(i + k - n) mod n = i + k - n" by simp
      finally show ?thesis using k False by simp
    qed
    ultimately show ?thesis using r by (simp add: n_def k_def)
  qed
qed

lemma roll2_nth:
  assumes "length X = n" "\<forall>row\<in>set X. length row = m" "i < n" "j < m" 
  shows "map (roll s) (roll s X) ! i ! j
         = X ! ((i + (n - s mod n)) mod n) ! ((j + (m - s mod m)) mod m)"
proof -
  have n: "0 < n" and m: "0 < m" using assms by auto
  let ?i = "(i + (n - s mod n)) mod n"
  have i': "?i < n" using n by simp
  have "map (roll s) (roll s X) ! i = roll s (roll s X ! i)"
    using assms by (simp add: length_roll)
  also have "roll s X ! i = X ! ?i" using assms by (simp add: roll_nth)
  finally have "map (roll s) (roll s X) ! i = roll s (X ! ?i)" .
  moreover have "length (X ! ?i) = m" using assms i' by simp
  ultimately show ?thesis using assms by (simp add: roll_nth)
qed

lemma shift_index:
  assumes "0 < n" "i < n"
  shows "(i + (n - (n div 2) mod n)) mod n = nat ((int i - int (n div 2)) mod int n)"
proof -
  have h: "n div 2 < n" using assms by simp
  then have m: "(n div 2) mod n = n div 2" by simp
  have e: "int (i + (n - n div 2)) = (int i - int (n div 2)) + int n"
    using h by simp
  have "int ((i + (n - n div 2)) mod n) = int (i + (n - n div 2)) mod int n"
    by (rule zmod_int)
  also have "\<dots> = ((int i - int (n div 2)) + int n) mod int n" by (simp only: e)
  also have "\<dots> = (int i - int (n div 2)) mod int n" by (rule mod_add_self2)
  finally have "nat (int ((i + (n - n div 2)) mod n)) = nat ((int i - int (n div 2)) mod int n)"
    by (rule arg_cong)
  then show ?thesis by (simp only: m nat_int)
qed

lemma nrows_map_upt: "nrows (map f [0..<r]) = r"
  by (simp add: nrows_def)

lemma ncols_map_upt: "0 < r \<Longrightarrow> ncols (map (\<lambda>i. map (g i) [0..<c]) [0..<r]) = c"
  by (cases r) (simp_all add: ncols_def upt_conv_Cons del: upt_Suc)

lemma is_array2_nrows: "is_array2 r c A \<Longrightarrow> nrows A = r"
  by (simp add: is_array2_def nrows_def)

lemma is_array2_ncols: "is_array2 r c A \<Longrightarrow> 0 < r \<Longrightarrow> ncols A = c"
  by (cases A) (auto simp: is_array2_def ncols_def)

lemma is_array2_nth: "is_array2 r c A \<Longrightarrow> i < r \<Longrightarrow> length (A ! i) = c"
  by (auto simp: is_array2_def list_all_length)

lemma is_array2_map_upt: "is_array2 r c (map (\<lambda>i. map (g i) [0..<c]) [0..<r])"
  by (simp add: is_array2_def list_all_iff)

lemma eTerm_shape: "nrows (eTerm n m) = n" "0 < n \<Longrightarrow> ncols (eTerm n m) = n"
  by (simp_all add: eTerm_def nrows_map_upt ncols_map_upt)

lemma bmul_square:
  assumes "is_array2 n n ap" "0 < n"
  shows "bmul ap (eTerm n m) = Inr (map (\<lambda>i. map (\<lambda>j. ap ! i ! j * eTerm n m ! i ! j) [0..<n]) [0..<n])"
proof -
  have "bidx n i = i" if "i < n" for i using that by (auto simp: bidx_def)
  then show ?thesis
    using assms by (simp add: bmul_def bdim_def is_array2_nrows is_array2_ncols eTerm_shape)
qed

lemma fft2_ok: "0 < nrows M \<Longrightarrow> 0 < ncols M \<Longrightarrow>
   fft2 M = Inr (map (\<lambda>k. map (\<lambda>l. dft2 M k l) [0..<ncols M]) [0..<nrows M])"
  by (simp add: fft2_def)

lemma Re_mult_cnj: "Re z * Re z + Im z * Im z = (cmod z)\<^sup>2"
  unfolding cmod_power2 by (simp add: power2_eq_square)

lemma set_roll: "set (roll s xs) = set xs"
proof -
  have "set (drop k xs @ take k xs) = set (take k xs @ drop k xs)" for k
    by (simp only: set_append Un_commute)
  then show ?thesis by (simp add: roll_def Let_def del: set_append)
qed

lemma occ_lc_square:
  assumes "is_array2 n n ap" "0 < n"
  shows "occ_lc ap = Inr (map (roll (n div 2)) (roll (n div 2)
            (map (\<lambda>k. map (\<lambda>l. (cmod (dft2 (modified ap n) k l))\<^sup>2) [0..<n]) [0..<n])))"
proof -
  have s: "nrows (modified ap n) = n" "ncols (modified ap n) = n"
    using assms by (simp_all add: modified_def nrows_map_upt ncols_map_upt)
  have "fft2 (modified ap n) = Inr (map (\<lambda>k. map (\<lambda>l. dft2 (modified ap n) k l) [0..<n]) [0..<n])"
    using assms s by (simp add: fft2_ok)
  then show ?thesis
    using assms by (simp add: occ_lc_def Let_def is_array2_nrows bmul_square modified_def [symmetric] Re_mult_cnj o_def)
qed

lemma occ_lc_square_nth:
  assumes "is_array2 n n ap" "0 < n" "i < n" "j < n"
  shows "projr (occ_lc ap) ! i ! j
     = (cmod (dft2 (modified ap n) (nat ((int i - int (n div 2)) mod int n))
                                  (nat ((int j - int (n div 2)) mod int n))))\<^sup>2"
proof -
  let ?X = "map (\<lambda>k. map (\<lambda>l. (cmod (dft2 (modified ap n) k l))\<^sup>2) [0..<n]) [0..<n]"
  let ?i = "(i + (n - (n div 2) mod n)) mod n" and ?j = "(j + (n - (n div 2) mod n)) mod n"
  have b: "?i < n" "?j < n" using assms by simp_all
  have "projr (occ_lc ap) ! i ! j = ?X ! ?i ! ?j"
    using assms by (simp add: occ_lc_square roll2_nth [where n = n and m = n])
  also have "\<dots> = (cmod (dft2 (modified ap n) ?i ?j))\<^sup>2" using b by simp
  finally show ?thesis using assms by (simp only: shift_index)
qed

lemma occ_lc_square_shape:
  assumes "is_array2 n n ap" "0 < n"
  shows "is_array2 n n (projr (occ_lc ap))"
proof -
  have "occ_lc ap = Inr (map (roll (n div 2)) (roll (n div 2)
            (map (\<lambda>k. map (\<lambda>l. (cmod (dft2 (modified ap n) k l))\<^sup>2) [0..<n]) [0..<n])))"
    using assms by (rule occ_lc_square)
  then show ?thesis
    by (auto simp: is_array2_def length_roll list_all_iff set_roll)
qed

section \<open>Facts about occ\_lc\<close>

lemma modified_nth:
  "r < n \<Longrightarrow> c < n \<Longrightarrow> modified ap n ! r ! c
     = ap ! r ! c * exp ((of_real pi * \<i>) / of_nat n
                             * of_real ((real r - real (n div 2))\<^sup>2 + (real c - real (n div 2))\<^sup>2))"
  by (simp add: modified_def eTerm_def)

lemma modified_shape: "nrows (modified ap n) = n" "0 < n \<Longrightarrow> ncols (modified ap n) = n"
  by (simp_all add: modified_def nrows_map_upt ncols_map_upt)

lemma modified_spec_M:
  assumes "even n" "r < n" "c < n"
  shows "modified ap n ! r ! c = spec_M ap n r c"
proof -
  have h: "real (n div 2) = real n / 2" using assms(1) by (simp add: real_of_nat_div)
  have "(of_real pi * \<i>) / of_nat n * complex_of_real x = \<i> * of_real (pi / real n * x)" for x
    by simp
  then show ?thesis using assms by (simp only: modified_nth spec_M_def h)
qed

lemma dft2_spec_F:
  assumes "even n" "0 < n"
  shows "dft2 (modified ap n) k l = spec_F ap n k l"
proof -
  have e: "- (2 * of_real pi * \<i>) * (of_nat (k * r) / of_nat n + of_nat (l * c) / of_nat n)
        = - (2 * of_real pi * \<i>) * of_nat (k * r + l * c) / (of_nat n :: complex)" for r c
    by (simp add: add_divide_distrib diff_divide_distrib ring_distribs)
  have "dft2 (modified ap n) k l
      = (\<Sum>r<n. \<Sum>c<n. modified ap n ! r ! c
           * exp (- (2 * of_real pi * \<i>) * (of_nat (k * r) / of_nat n + of_nat (l * c) / of_nat n)))"
    using assms by (simp add: dft2_def modified_shape)
  also have "\<dots> = (\<Sum>r<n. \<Sum>c<n. spec_M ap n r c
           * exp (- (2 * of_real pi * \<i>) * of_nat (k * r + l * c) / of_nat n))"
    by (intro sum.cong refl) (simp only: e modified_spec_M [OF assms(1)] lessThan_iff)
  finally show ?thesis by (simp add: spec_F_def)
qed

lemma bmul_rect:
  assumes "is_array2 r c ap" "0 < r" "bdim c r = Some c'"
  shows "\<exists>M. bmul ap (eTerm r m) = Inr M \<and> nrows M = r \<and> ncols M = c'"
proof -
  have "bdim r r = Some r" by (simp add: bdim_def)
  then have "bmul ap (eTerm r m)
      = Inr (map (\<lambda>i. map (\<lambda>j. ap ! bidx r i ! bidx c j * eTerm r m ! bidx r i ! bidx r j) [0..<c']) [0..<r])"
    using assms by (simp add: bmul_def is_array2_nrows is_array2_ncols eTerm_shape)
  then show ?thesis using assms(2) by (simp add: nrows_map_upt ncols_map_upt)
qed

lemma bmul_rect_none:
  assumes "is_array2 r c ap" "0 < r" "bdim c r = None"
  shows "bmul ap (eTerm r m) = Inl ValueError"
proof -
  have "bdim r r = Some r" by (simp add: bdim_def)
  then show ?thesis
    using assms by (simp add: bmul_def is_array2_nrows is_array2_ncols eTerm_shape)
qed

lemma occ_lc_of_M:
  assumes "0 < nrows ap" "bmul ap (eTerm (nrows ap) (nrows ap div 2)) = Inr M"
  shows "occ_lc ap = (if nrows M = 0 \<or> ncols M = 0 then Inl ValueError
           else Inr (map (roll (nrows ap div 2)) (roll (nrows ap div 2)
                  (map (map (\<lambda>z. Re (z * cnj z)))
                     (map (\<lambda>k. map (\<lambda>l. dft2 M k l) [0..<ncols M]) [0..<nrows M])))))"
  using assms by (simp add: occ_lc_def Let_def fft2_def)

lemma occ_lc_rect_ok:
  assumes "is_array2 r c ap" "0 < r" "bdim c r = Some c'" "0 < c'"
  shows "\<exists>P. occ_lc ap = Inr P \<and> is_array2 r c' P"
proof -
  obtain M where M: "bmul ap (eTerm r (r div 2)) = Inr M" "nrows M = r" "ncols M = c'"
    using bmul_rect [OF assms(1,2,3)] by blast
  have r: "nrows ap = r" using assms(1) by (rule is_array2_nrows)
  have "occ_lc ap = Inr (map (roll (r div 2)) (roll (r div 2)
                  (map (map (\<lambda>z. Re (z * cnj z)))
                     (map (\<lambda>k. map (\<lambda>l. dft2 M k l) [0..<c']) [0..<r]))))"
    using occ_lc_of_M [of ap M] M assms(2,4) r by simp
  moreover have "is_array2 r c' (map (roll (r div 2)) (roll (r div 2)
                  (map (map (\<lambda>z. Re (z * cnj z)))
                     (map (\<lambda>k. map (\<lambda>l. dft2 M k l) [0..<c']) [0..<r]))))"
    by (auto simp: is_array2_def length_roll list_all_iff set_roll)
  ultimately show ?thesis by simp
qed

lemma occ_lc_rect_zero:
  assumes "is_array2 r c ap" "0 < r" "bdim c r = Some 0"
  shows "occ_lc ap = Inl ValueError"
proof -
  obtain M where M: "bmul ap (eTerm r (r div 2)) = Inr M" "nrows M = r" "ncols M = 0"
    using bmul_rect [OF assms(1,2,3)] by blast
  have r: "nrows ap = r" using assms(1) by (rule is_array2_nrows)
  show ?thesis using occ_lc_of_M [of ap M] M assms(2) r by simp
qed

lemma occ_lc_rect_none:
  assumes "is_array2 r c ap" "0 < r" "bdim c r = None"
  shows "occ_lc ap = Inl ValueError"
  using assms bmul_rect_none [OF assms, of "r div 2"]
  by (simp add: occ_lc_def Let_def is_array2_nrows)

lemma occ_lc_zero_rows:
  assumes "is_array2 0 c ap"
  shows "occ_lc ap = Inl ZeroDivisionError"
  using assms by (simp add: occ_lc_def Let_def is_array2_nrows)

section \<open>Facts about RingSeg\_ap\<close>

lemma sel_filter: "map snd (filter fst (zip (map p xs) xs)) = filter p xs"
  by (induction xs) auto

lemma bool_index_map: "bool_index (map (map p) A) A = filter p (concat A)"
  by (simp add: bool_index_def map_concat [symmetric] sel_filter)

lemma map_err_total: "(\<forall>x\<in>set xs. t x = Inr (f x)) \<Longrightarrow> map_err t xs = Inr (map f xs)"
  by (induction xs) auto

lemma map_err_Inr: "map_err t xs = Inr ys \<Longrightarrow> ys = map (\<lambda>x. projr (t x)) xs"
  by (induction xs arbitrary: ys) (auto split: sum.splits)

lemma map_err_cong: "(\<forall>x\<in>set xs. t x = t' x) \<Longrightarrow> map_err t xs = map_err t' xs"
  by (induction xs) (auto split: sum.splits)

lemma scatter_map:
  "scatter (map p xs) (map (\<lambda>_. b) xs) (map f (filter p xs)) = map (\<lambda>x. if p x then f x else b) xs"
  by (induction xs) auto

lemma unflatten_concat:
  "length A = r \<Longrightarrow> list_all (\<lambda>row. length row = c) A \<Longrightarrow> unflatten r c (concat A) = A"
  by (induction A arbitrary: r) auto

lemma concat_const:
  "list_all (\<lambda>row. length row = c) A \<Longrightarrow> concat (replicate (length A) (replicate c b)) = map (\<lambda>_. b) (concat A)"
  by (induction A) (auto simp: map_replicate_const replicate_add)

lemma ncols_replicate: "0 < r \<Longrightarrow> ncols (replicate r row) = length row"
  by (cases r) (simp_all add: ncols_def)

lemma masked_update:
  assumes "map_err t (filter p (concat A)) = Inr vals" "is_array2 r c A" "0 < r"
  shows "bool_assign (map (map p) A) (replicate r (replicate c b)) vals
         = Inr (map (map (\<lambda>x. if p x then projr (t x) else b)) A)"
proof -
  let ?g = "\<lambda>x. if p x then projr (t x) else b"
  have v: "vals = map (\<lambda>x. projr (t x)) (filter p (concat A))"
    using assms(1) by (rule map_err_Inr)
  have m: "concat (map (map p) A) = map p (concat A)" by (simp add: map_concat)
  have l: "length (filter id (map p (concat A))) = length (filter p (concat A))"
    by (simp add: filter_map o_def)
  have A: "length A = r" "list_all (\<lambda>row. length row = c) A"
    using assms(2) by (simp_all add: is_array2_def)
  have o: "concat (replicate r (replicate c b)) = map (\<lambda>_. b) (concat A)"
    using concat_const [OF A(2), of b] A(1) by simp
  have "scatter (map p (concat A)) (map (\<lambda>_. b) (concat A)) vals = map ?g (concat A)"
    unfolding v by (rule scatter_map)
  also have "\<dots> = concat (map (map ?g) A)" by (simp add: map_concat)
  finally have s: "scatter (map p (concat A)) (map (\<lambda>_. b) (concat A)) vals = concat (map (map ?g) A)" .
  have u: "unflatten r c (concat (map (map ?g) A)) = map (map ?g) A"
    using A by (intro unflatten_concat) (simp_all add: list_all_iff)
  show ?thesis
    using assms(3) by (simp add: bool_assign_def m l v [symmetric] o s u nrows_def ncols_replicate)
      (simp add: v)
qed

lemma outer_ones: "outer (replicate n 1) xv = replicate n xv"
proof -
  have "(*) (1::real) = (\<lambda>x. x)" by (rule ext) simp
  then show ?thesis by (simp add: outer_def)
qed

lemma xv_shape: "is_array2 n n (replicate n (xv_of g n))"
  by (simp add: is_array2_def xv_of_def list_all_iff)

lemma RingSeg_ap_char:
  assumes "0 < npts" "0 \<le> lam * (1 / 10 ^ 9) * D"
  shows "RingSeg_ap lam D npts wid t_r =
     (case map_err t_r (filter (\<lambda>x. \<bar>x\<bar> \<le> 0.5 * wid)
               (concat (replicate (nat npts) (xv_of (sqrt (lam * (1 / 10 ^ 9) * D / of_int npts)) (nat npts))))) of
        Inl e \<Rightarrow> Inl e
      | Inr vals \<Rightarrow>
          Inr (replicate (nat npts)
                 (map (\<lambda>x. if \<bar>x\<bar> \<le> 0.5 * wid then projr (t_r x) else 1)
                      (xv_of (sqrt (lam * (1 / 10 ^ 9) * D / of_int npts)) (nat npts))),
               sqrt (lam * (1 / 10 ^ 9) * D * of_int npts),
               sqrt (lam * (1 / 10 ^ 9) * D / of_int npts)))"
proof -
  define n where "n = nat npts"
  define g where "g = sqrt (lam * (1 / 10 ^ 9) * D / of_int npts)"
  define p where "p = (\<lambda>x::real. \<bar>x\<bar> \<le> 0.5 * wid)"
  have n: "0 < n" using assms(1) by (simp add: n_def)
  have np: "0 < (of_int npts :: real)" using assms(1) by simp
  have z: "(npts = 0) = False" "(npts < 0) = False" using assms(1) by simp_all
  have q1: "(lam * (1 / 10 ^ 9) * D / of_int npts < 0) = False"
    using divide_nonneg_pos [OF assms(2) np] by (simp only: not_less [symmetric] simp_thms)
  have q2: "(lam * (1 / 10 ^ 9) * D * of_int npts < 0) = False"
    using mult_nonneg_nonneg [OF assms(2) less_imp_le [OF np]]
    by (simp only: not_less [symmetric] simp_thms)
  have r: "RingSeg_ap lam D npts wid t_r =
      (case map_err t_r (bool_index (map (map p) (replicate n (xv_of g n))) (replicate n (xv_of g n))) of
         Inl e \<Rightarrow> Inl e
       | Inr vals \<Rightarrow>
           (case bool_assign (map (map p) (replicate n (xv_of g n))) (replicate n (replicate n 1)) vals of
              Inl e \<Rightarrow> Inl e
            | Inr ap \<Rightarrow> Inr (ap, sqrt (lam * (1 / 10 ^ 9) * D * of_int npts), g)))"
    unfolding n_def g_def p_def
    by (simp only: RingSeg_ap_def Let_def np_sqrt_def z q1 q2 if_False sum.case
          xv_of_def [symmetric] outer_ones)
  show ?thesis
  proof (cases "map_err t_r (filter p (concat (replicate n (xv_of g n))))")
    case (Inl e)
    then show ?thesis unfolding r bool_index_map by (simp add: n_def g_def p_def)
  next
    case (Inr vals)
    from masked_update [OF Inr xv_shape n, of 1]
    show ?thesis unfolding r bool_index_map using Inr by (simp add: n_def g_def p_def)
  qed
qed

lemma RingSeg_ap_Inr_pre:
  assumes "RingSeg_ap lam D npts wid t_r = Inr res"
  shows "0 < npts \<and> 0 \<le> lam * (1 / 10 ^ 9) * D"
proof (rule ccontr)
  assume h: "\<not> (0 < npts \<and> 0 \<le> lam * (1 / 10 ^ 9) * D)"
  show False
  proof (cases "0 < npts")
    case False
    then have "npts = 0 \<or> npts < 0" by auto
    then have "isl (RingSeg_ap lam D npts wid t_r)"
      by (auto simp only: RingSeg_ap_def Let_def if_True if_False sum.disc split: if_splits)
    then show False using assms by simp
  next
    case True
    then have "lam * (1 / 10 ^ 9) * D < 0" using h by simp
    moreover have "0 < (of_int npts :: real)" using True by simp
    ultimately have "(lam * (1 / 10 ^ 9) * D / of_int npts < 0) = True"
      by (simp only: divide_neg_pos)
    then have "RingSeg_ap lam D npts wid t_r = Inl NonFinite"
      using True by (simp only: RingSeg_ap_def Let_def np_sqrt_def if_True sum.case) simp
    then show False using assms by simp
  qed
qed

lemma RingSeg_ap_valid:
  assumes "0 < npts" "0 \<le> lam * (1 / 10 ^ 9) * D" "\<forall>x. \<bar>x\<bar> \<le> 0.5 * wid \<longrightarrow> \<not> isl (t_r x)"
  shows "RingSeg_ap lam D npts wid t_r =
          Inr (replicate (nat npts)
                 (map (\<lambda>x. if \<bar>x\<bar> \<le> 0.5 * wid then projr (t_r x) else 1)
                      (xv_of (sqrt (lam * (1 / 10 ^ 9) * D / of_int npts)) (nat npts))),
               sqrt (lam * (1 / 10 ^ 9) * D * of_int npts),
               sqrt (lam * (1 / 10 ^ 9) * D / of_int npts))"
proof -
  let ?xs = "filter (\<lambda>x. \<bar>x\<bar> \<le> 0.5 * wid)
               (concat (replicate (nat npts) (xv_of (sqrt (lam * (1 / 10 ^ 9) * D / of_int npts)) (nat npts))))"
  have "\<forall>x\<in>set ?xs. t_r x = Inr (projr (t_r x))" using assms(3) by simp
  then have "map_err t_r ?xs = Inr (map (\<lambda>x. projr (t_r x)) ?xs)" by (rule map_err_total)
  then show ?thesis by (simp only: RingSeg_ap_char [OF assms(1,2)] sum.case)
qed

lemma xv_of_nth: "c < n \<Longrightarrow> xv_of g n ! c = of_int (int c - int (n div 2)) * g"
  by (simp add: xv_of_def)

lemma sqrt_scale:
  assumes "0 < (n::real)"
  shows "sqrt (a * n) = sqrt (a / n) * n"
proof -
  have "a * n = (a / n) * (n * n)" using assms by simp
  then have "sqrt (a * n) = sqrt (a / n) * sqrt (n * n)" by (simp only: real_sqrt_mult)
  then show ?thesis using assms by simp
qed

lemma RingSeg_ap_agree:
  assumes "\<forall>x. \<bar>x\<bar> \<le> 0.5 * wid \<longrightarrow> t_r x = t_r' x"
  shows "RingSeg_ap lam D npts wid t_r = RingSeg_ap lam D npts wid t_r'"
proof -
  have e: "map_err t_r (filter (\<lambda>x. \<bar>x\<bar> \<le> 0.5 * wid) xs) = map_err t_r' (filter (\<lambda>x. \<bar>x\<bar> \<le> 0.5 * wid) xs)" for xs
    using assms by (intro map_err_cong) simp
  show ?thesis unfolding RingSeg_ap_def Let_def bool_index_map e ..
qed

lemma RingSeg_ap_cells:
  assumes "0 < npts" "0 \<le> lam * (1 / 10 ^ 9) * D" "\<forall>x. \<bar>x\<bar> \<le> wid / 2 \<longrightarrow> \<not> isl (t_r x)"
  shows "\<exists>ap. RingSeg_ap lam D npts wid t_r
               = Inr (ap, sqrt (lam * (1 / 10 ^ 9) * D * of_int npts), sqrt (lam * (1 / 10 ^ 9) * D / of_int npts))
           \<and> is_array2 (nat npts) (nat npts) ap
           \<and> (\<forall>r<nat npts. \<forall>c<nat npts.
                 ap ! r ! c = (let x = of_int (int c - int (nat npts div 2)) * sqrt (lam * (1 / 10 ^ 9) * D / of_int npts)
                               in if \<bar>x\<bar> \<le> wid / 2 then projr (t_r x) else 1))"
proof -
  have h: "\<forall>x. \<bar>x\<bar> \<le> 0.5 * wid \<longrightarrow> \<not> isl (t_r x)" using assms(3) by simp
  let ?g = "sqrt (lam * (1 / 10 ^ 9) * D / of_int npts)"
  let ?ap = "replicate (nat npts) (map (\<lambda>x. if \<bar>x\<bar> \<le> 0.5 * wid then projr (t_r x) else 1) (xv_of ?g (nat npts)))"
  have "RingSeg_ap lam D npts wid t_r = Inr (?ap, sqrt (lam * (1 / 10 ^ 9) * D * of_int npts), ?g)"
    by (rule RingSeg_ap_valid [OF assms(1,2) h])
  moreover have "is_array2 (nat npts) (nat npts) ?ap"
    by (simp add: is_array2_def list_all_iff xv_of_def)
  moreover have "?ap ! r ! c = (let x = of_int (int c - int (nat npts div 2)) * ?g
                               in if \<bar>x\<bar> \<le> wid / 2 then projr (t_r x) else 1)"
    if "r < nat npts" "c < nat npts" for r c
    using that by (simp add: xv_of_def Let_def)
  ultimately show ?thesis by blast
qed

lemma tF1_defined: "\<forall>x. \<bar>x\<bar> \<le> 46 / 2 \<longrightarrow> \<not> isl (tF1 x)"
  by (simp add: tF1_def)

lemma scenario_returns:
  "\<exists>ap FOV gridSz. RingSeg_ap (1 / 2) (43 * 150000000) 4096 46 tF1 = Inr (ap, FOV, gridSz)"
proof -
  have a: "0 \<le> (1 / 2) * (1 / 10 ^ 9) * (43 * 150000000 :: real)" by simp
  have n: "(0 :: int) < 4096" by simp
  have t: "\<forall>x. \<bar>x\<bar> \<le> 0.5 * 46 \<longrightarrow> \<not> isl (tF1 x)" by (simp add: tF1_def)
  show ?thesis by (intro exI) (rule RingSeg_ap_valid [OF n a t])
qed

section \<open>Facts about the median\<close>

lemma sort_map_scale:
  assumes "0 < (m::real)"
  shows "sort (map (\<lambda>x. x / m) xs) = map (\<lambda>x. x / m) (sort xs)"
proof (rule properties_for_sort)
  show "mset (map (\<lambda>x. x / m) (sort xs)) = mset (map (\<lambda>x. x / m) xs)" by simp
  have "sorted (sort xs)" by simp
  then have "sorted_wrt (\<lambda>x y. x / m \<le> y / m) (sort xs)"
    using assms by (rule_tac sorted_wrt_mono_rel [where P = "(\<le>)"]) (auto simp: divide_le_cancel)
  then show "sorted (map (\<lambda>x. x / m) (sort xs))"
    by (simp only: sorted_map)
qed

lemma half_lt: "n \<noteq> 0 \<Longrightarrow> n div 2 < (n::nat)" "n \<noteq> 0 \<Longrightarrow> n div 2 - 1 < (n::nat)"
  by arith+

lemma np_median_eq:
  assumes "xs \<noteq> []"
  shows "np_median xs = Inr (if even (length xs)
            then (sort xs ! (length xs div 2 - 1) + sort xs ! (length xs div 2)) / 2
            else sort xs ! (length xs div 2))"
  using assms by (simp add: np_median_def Let_def)

lemma np_median_scale:
  assumes "0 < (m::real)" "xs \<noteq> []" "np_median xs = Inr v"
  shows "np_median (map (\<lambda>x. x / m) xs) = Inr (v / m)"
proof -
  define n where "n = length xs"
  define s where "s = sort xs"
  have n: "n \<noteq> 0" using assms(2) by (simp add: n_def)
  have ls: "length s = n" by (simp add: s_def n_def)
  have i: "n div 2 < length s" "n div 2 - 1 < length s" using half_lt [OF n] ls by simp_all
  have v: "v = (if even n then (s ! (n div 2 - 1) + s ! (n div 2)) / 2 else s ! (n div 2))"
    using assms(3) unfolding np_median_eq [OF assms(2)] n_def s_def by simp
  have "map (\<lambda>x. x / m) xs \<noteq> []" using assms(2) by simp
  then have "np_median (map (\<lambda>x. x / m) xs)
     = Inr (if even (length (map (\<lambda>x. x / m) xs))
            then (sort (map (\<lambda>x. x / m) xs) ! (length (map (\<lambda>x. x / m) xs) div 2 - 1)
                  + sort (map (\<lambda>x. x / m) xs) ! (length (map (\<lambda>x. x / m) xs) div 2)) / 2
            else sort (map (\<lambda>x. x / m) xs) ! (length (map (\<lambda>x. x / m) xs) div 2))"
    by (rule np_median_eq)
  then have "np_median (map (\<lambda>x. x / m) xs)
     = Inr (if even n then (map (\<lambda>x. x / m) s ! (n div 2 - 1) + map (\<lambda>x. x / m) s ! (n div 2)) / 2
            else map (\<lambda>x. x / m) s ! (n div 2))"
    unfolding sort_map_scale [OF assms(1)] length_map n_def [symmetric] s_def [symmetric] .
  also have "\<dots> = Inr (v / m)"
    using i by (simp only: nth_map v) (simp add: add_divide_distrib)
  finally show ?thesis .
qed

lemma np_median_pos:
  assumes "xs \<noteq> []" "\<forall>x\<in>set xs. 0 < x"
  shows "\<exists>v. np_median xs = Inr v \<and> 0 < v"
proof -
  define n where "n = length xs"
  have n: "n \<noteq> 0" using assms(1) by (simp add: n_def)
  have p: "0 < sort xs ! k" if "k < n" for k
  proof -
    have "sort xs ! k \<in> set (sort xs)" using that by (intro nth_mem) (simp add: n_def)
    then show ?thesis using assms(2) by simp
  qed
  have a: "0 < sort xs ! (n div 2)" and b: "0 < sort xs ! (n div 2 - 1)"
    using p half_lt [OF n] by blast+
  have "0 < (if even n then (sort xs ! (n div 2 - 1) + sort xs ! (n div 2)) / 2 else sort xs ! (n div 2))"
    using a b by simp
  then show ?thesis unfolding np_median_eq [OF assms(1)] n_def by blast
qed

section \<open>Mirror symmetry of the transform\<close>

lemma exp_2pi_nat: "exp (- (2 * of_real pi * \<i>) * of_nat q) = (1::complex)"
proof -
  have "exp (- (2 * of_real pi * \<i>)) = (1::complex)"
    by (simp only: exp_minus exp_two_pi_i inverse_1)
  then show ?thesis by (simp only: exp_of_nat2_mult power_one)
qed

lemma twiddle_mod_self:
  assumes "0 < n"
  shows "exp (- (2 * of_real pi * \<i>) * (of_nat a / of_nat n))
       = exp (- (2 * of_real pi * \<i>) * (of_nat (a mod n) / of_nat n :: complex))"
proof -
  have "a = n * (a div n) + a mod n" by simp
  then have "(of_nat a :: complex) = of_nat n * of_nat (a div n) + of_nat (a mod n)"
    by (metis of_nat_add of_nat_mult)
  then have "(of_nat a / of_nat n :: complex) = of_nat (a div n) + of_nat (a mod n) / of_nat n"
    using assms by (simp add: add_divide_distrib)
  then have "exp (- (2 * of_real pi * \<i>) * (of_nat a / of_nat n))
      = exp (- (2 * of_real pi * \<i>) * of_nat (a div n))
        * exp (- (2 * of_real pi * \<i>) * (of_nat (a mod n) / of_nat n :: complex))"
    by (simp only: ring_distribs exp_add)
  then show ?thesis by (simp only: exp_2pi_nat mult_1)
qed

lemma twiddle_mod:
  assumes "0 < n" "a mod n = b mod n"
  shows "exp (- (2 * of_real pi * \<i>) * (of_nat a / of_nat n))
       = exp (- (2 * of_real pi * \<i>) * (of_nat b / of_nat n :: complex))"
  using twiddle_mod_self [OF assms(1), of a] twiddle_mod_self [OF assms(1), of b] assms(2)
  by simp

lemma reflect_mult_mod:
  assumes "l \<le> n" "c \<le> n"
  shows "((n - l) * (n - c)) mod n = (l * c) mod (n::nat)"
proof -
  have a: "int (n - l) = int n - int l" and b: "int (n - c) = int n - int c"
    using assms by simp_all
  have "int ((n - l) * (n - c)) = (int n - int l) * (int n - int c)"
    by (simp only: of_nat_mult a b)
  also have "\<dots> = int (l * c) + int n * (int n - int l - int c)"
    by (simp add: algebra_simps)
  finally have "int ((n - l) * (n - c)) mod int n = int (l * c) mod int n"
    by (simp only: mod_mult_self2)
  then have "int (((n - l) * (n - c)) mod n) = int ((l * c) mod n)"
    by (simp only: zmod_int)
  then show ?thesis by (simp only: of_nat_eq_iff)
qed

lemma reflect_involution: "c < n \<Longrightarrow> (n - (n - c) mod n) mod n = (c::nat)"
  by (cases "c = 0") simp_all

lemma dft2_reflect:
  assumes "nrows M = n" "ncols M = n" "0 < n" "l < n"
    and sym: "\<And>r c. r < n \<Longrightarrow> c < n \<Longrightarrow> M ! r ! ((n - c) mod n) = M ! r ! c"
  shows "dft2 M k ((n - l) mod n) = dft2 M k l"
proof -
  define s where "s = (\<lambda>c. (n - c) mod n)"
  define E where "E = (\<lambda>x::complex. exp (- (2 * of_real pi * \<i>) * x))"
  define g where "g = (\<lambda>l r c. M ! r ! c * E (of_nat (k * r) / of_nat n + of_nat (l * c) / of_nat n))"
  have inv: "s (s c) = c" if "c < n" for c using that by (simp add: s_def reflect_involution)
  have rng: "s c < n" for c using assms(3) by (simp add: s_def)
  have m: "(s l * s c) mod n = (l * c) mod n" if "c < n" for c
  proof -
    have "(s l * s c) mod n = ((n - l) * (n - c)) mod n"
      by (simp add: s_def mod_mult_eq)
    then show ?thesis using reflect_mult_mod [of l n c] assms(4) that by simp
  qed
  have tw: "g (s l) r (s c) = g l r c" if "r < n" "c < n" for r c
  proof -
    have "E (of_nat (k * r) / of_nat n + of_nat (s l * s c) / of_nat n)
        = E (of_nat (k * r) / of_nat n) * E (of_nat (s l * s c) / of_nat n)"
      by (simp only: E_def ring_distribs exp_add)
    also have "E (of_nat (s l * s c) / of_nat n) = E (of_nat (l * c) / of_nat n)"
      unfolding E_def by (rule twiddle_mod [OF assms(3) m [OF that(2)]])
    also have "E (of_nat (k * r) / of_nat n) * E (of_nat (l * c) / of_nat n)
        = E (of_nat (k * r) / of_nat n + of_nat (l * c) / of_nat n)"
      by (simp only: E_def ring_distribs exp_add)
    finally show ?thesis using sym [OF that] by (simp add: g_def s_def)
  qed
  have inner: "(\<Sum>c<n. g (s l) r c) = (\<Sum>c<n. g l r c)" if "r < n" for r
  proof -
    have "(\<Sum>c<n. g (s l) r c) = (\<Sum>c<n. g (s l) r (s c))"
      by (rule sum.reindex_bij_witness [where i = s and j = s]) (simp_all add: inv rng)
    also have "\<dots> = (\<Sum>c<n. g l r c)"
      using that by (intro sum.cong refl) (simp add: tw)
    finally show ?thesis .
  qed
  have "dft2 M k (s l) = (\<Sum>r<n. \<Sum>c<n. g (s l) r c)"
    by (simp only: dft2_def assms(1,2) g_def E_def)
  also have "\<dots> = (\<Sum>r<n. \<Sum>c<n. g l r c)"
    by (rule sum.cong [OF refl]) (simp add: inner)
  also have "\<dots> = dft2 M k l"
    by (simp only: dft2_def assms(1,2) g_def E_def)
  finally show ?thesis by (simp only: s_def)
qed

lemma modified_reflect:
  assumes "even n" "0 < n" "r < n" "c < n" "A ! r ! ((n - c) mod n) = A ! r ! c"
  shows "modified A n ! r ! ((n - c) mod n) = modified A n ! r ! c"
proof (cases "c = 0")
  case True
  then show ?thesis using assms(2) by simp
next
  case False
  then have s: "(n - c) mod n = n - c" "n - c < n" using assms(2,4) by simp_all
  have h: "real (n div 2) = real n / 2" using assms(1) by (simp add: real_of_nat_div)
  have "real (n - c) - real (n div 2) = - (real c - real (n div 2))"
    using assms(4) h by (simp add: of_nat_diff)
  then have "(real (n - c) - real (n div 2))\<^sup>2 = (real c - real (n div 2))\<^sup>2"
    by (simp only: power2_minus)
  then show ?thesis
    using assms(3,4,5) s by (simp add: modified_nth)
qed

lemma xv_of_reflect:
  assumes "even n" "0 < c" "c < n"
  shows "xv_of gs n ! (n - c) = - (xv_of gs n ! c)"
proof -
  have "int (n div 2) * 2 = int n" using assms(1) by (metis dvd_div_mult_self of_nat_mult of_nat_numeral)
  then have "int (n - c) - int (n div 2) = - (int c - int (n div 2))"
    using assms(3) by (simp add: of_nat_diff)
  then have e: "real_of_int (int (n - c) - int (n div 2)) = - real_of_int (int c - int (n div 2))"
    by (simp only: of_int_minus)
  have i1: "xv_of gs n ! (n - c) = real_of_int (int (n - c) - int (n div 2)) * gs"
    using assms(2,3) by (intro xv_of_nth) simp
  have i2: "xv_of gs n ! c = real_of_int (int c - int (n div 2)) * gs"
    using assms(3) by (rule xv_of_nth)
  show ?thesis by (simp only: i1 i2 e mult_minus_left)
qed

lemma shift_plus:
  assumes "k < n"
  shows "nat ((int (m + k) - int m) mod int n) = k"
proof -
  have "int (m + k) - int m = int k" by simp
  moreover have "int k mod int n = int k" using assms by simp
  ultimately show ?thesis by simp
qed

lemma shift_minus:
  assumes "0 < k" "k \<le> m" "k < n"
  shows "nat ((int (m - k) - int m) mod int n) = n - k"
proof -
  have "int (m - k) - int m = - int k" using assms(2) by simp
  moreover have "(- int k) mod int n = (- int k + int n) mod int n" by (simp only: mod_add_self2)
  moreover have "(- int k + int n) mod int n = - int k + int n"
    using assms(1,3) by (intro mod_pos_pos_trivial) simp_all
  ultimately have "(int (m - k) - int m) mod int n = int n - int k" by simp
  then show ?thesis using assms(3) by simp
qed

section \<open>Two runs of the model\<close>

text \<open>
  The all-ones aperture of side 2: the modified aperture is \<open>[[-1, i], [i, 1]]\<close>, its
  transform \<open>[[2i, -2], [-2, -2i]]\<close>, and every intensity is 4. A ring of width 2 km on a
  grid of 4 samples with spacing 1 km: the offsets are \<open>-2, -1, 0, 1\<close> and the last three
  columns are in the ring.
\<close>

lemma lt2: "{..<2::nat} = {0, 1}" by auto

lemma upt2: "[0..<2] = [0, 1]" by (simp add: upt_rec)

lemma exp_half_pi: "exp (complex_of_real pi * \<i> / 2) = \<i>"
proof -
  have "exp (\<i> * complex_of_real (pi / 2)) = \<i>"
    by (simp only: cis_conv_exp [symmetric] cis_pi_half)
  then show ?thesis by (simp add: mult.commute)
qed

lemma occ_lc_ones_2x2: "occ_lc [[1, 1], [1, 1]] = Inr [[4, 4], [4, 4]]"
proof -
  have e: "eTerm 2 1 = [[- 1, \<i>], [\<i>, 1]]"
    by (simp add: eTerm_def upt2 exp_half_pi)
  have m: "bmul [[1, 1], [1, 1]] (eTerm 2 1) = Inr [[- 1, \<i>], [\<i>, 1]]"
    unfolding e by (simp add: bmul_def bdim_def bidx_def nrows_def ncols_def upt2)
  have h: "(2 :: nat) div 2 = 1" by simp
  have f: "fft2 [[- 1, \<i>], [\<i>, 1]] = Inr [[2 * \<i>, - 2], [- 2, - 2 * \<i>]]"
    by (simp add: fft2_def dft2_def nrows_def ncols_def upt2 lt2 exp_minus)
  have l: "length [[1, 1], [1, 1 :: complex]] = 2" by simp
  show ?thesis
    unfolding occ_lc_def Let_def nrows_def l h m by (simp add: f roll_def)
qed

lemma RingSeg_ap_small:
  "RingSeg_ap (10 ^ 9) 4 4 2 (\<lambda>x. Inr (1 / 2))
     = Inr (replicate 4 [1, 1 / 2, 1 / 2, 1 / 2], 4, 1)"
proof -
  have s: "sqrt 16 = 4" using real_sqrt_abs [of 4] by simp
  have u: "[0..<4] = [0, 1, 2, 3]" by (simp add: upt_rec)
  have r: "replicate 4 x = [x, x, x, x]" for x :: 'a by (simp add: numeral_eq_Suc)
  show ?thesis
    by (simp add: RingSeg_ap_def Let_def np_sqrt_def s u r outer_def bool_index_def
          bool_assign_def nrows_def ncols_def)
qed

section \<open>The claims about occ\_lc\<close>

text \<open>
  Claim C1, as amended. For every square aperture of positive even side length \<open>npts\<close>,
  \<open>occ_lc\<close> returns an \<open>npts\<close> by \<open>npts\<close> array \<open>P\<close> with
  \<open>P[i][j] = |F[(i - n2) mod npts][(j - n2) mod npts]|\<^sup>2\<close>, where \<open>F\<close> is the unnormalised
  forward transform of the modified aperture \<open>M[r][c] = ap[r][c] * exp(i*pi/npts * ((r - n2)\<^sup>2 + (c - n2)\<^sup>2))\<close>
  and \<open>n2 = npts/2\<close>. The side length has to be positive: see the empty aperture below.
\<close>

theorem occ_lc_shifted_dft:
  assumes "is_array2 npts npts ap" and "0 < npts" and "even npts"
  shows "\<exists>P. occ_lc ap = Inr P \<and> is_array2 npts npts P
             \<and> (\<forall>i<npts. \<forall>j<npts. P ! i ! j = spec_P ap npts i j)"
proof -
  have d: "int npts div 2 = int (npts div 2)" by simp
  obtain P where P: "occ_lc ap = Inr P"
    using occ_lc_square [OF assms(1,2)] by simp
  have "is_array2 npts npts P" using occ_lc_square_shape [OF assms(1,2)] P by simp
  moreover have "P ! i ! j = spec_P ap npts i j" if "i < npts" "j < npts" for i j
    using occ_lc_square_nth [OF assms(1,2) that] P
    by (simp add: spec_P_def d dft2_spec_F [OF assms(3,2)])
  ultimately show ?thesis using P by blast
qed

theorem occ_lc_shifted_dft_witness:
  "is_array2 2 2 [[1, 1], [1, 1 :: complex]] \<and> even (2 :: nat)
   \<and> \<not> isl (occ_lc [[1, 1], [1, 1]])
   \<and> projr (occ_lc [[1, 1], [1, 1]]) ! 0 ! 1 = spec_P [[1, 1], [1, 1]] 2 0 1"
proof -
  have a: "is_array2 2 2 [[1, 1], [1, 1 :: complex]]" by (simp add: is_array2_def)
  obtain P where "occ_lc [[1, 1], [1, 1]] = Inr P"
    and "\<forall>i<2. \<forall>j<2. P ! i ! j = spec_P [[1, 1], [1, 1]] 2 i j"
    using occ_lc_shifted_dft [OF a] by auto
  then show ?thesis using a by simp
qed

text \<open>
  The empty aperture is square, of even side length 0, and \<open>occ_lc\<close> does not return on
  it: \<open>(np.pi * 1j)/npts\<close> divides by the Python int 0.
\<close>

theorem occ_lc_empty_aperture:
  "is_array2 0 0 ([] :: complex list list) \<and> even (0 :: nat) \<and> occ_lc [] = Inl ZeroDivisionError"
  by (simp add: occ_lc_def nrows_def is_array2_def)

text \<open>
  Claim C4 fails: \<open>occ_lc\<close> has no shape check. A square aperture of odd side length is
  accepted and processed with \<open>n2 = npts div 2\<close>.
\<close>

theorem occ_lc_odd_side_accepted:
  "is_array2 1 1 [[1 :: complex]] \<and> odd (1 :: nat) \<and> occ_lc [[1]] = Inr [[1]]"
  by (simp add: occ_lc_def nrows_def ncols_def bmul_def bdim_def bidx_def eTerm_def fft2_def
        dft2_def roll_def is_array2_def)

text \<open>
  Claim C4, as amended: what \<open>occ_lc\<close> does with an aperture of \<open>r\<close> rows of length \<open>c\<close>.
  It raises ZeroDivisionError when there is no row. Otherwise it returns an array when the
  aperture is square (odd or even), when it is a single column (numpy repeats the column),
  or when it is a single non-empty row; and it raises ValueError in every other case, from the
  broadcasting of \<open>ap*eTerm\<close> or from the transform of an empty row. No error is raised by a
  check of its own.
\<close>

theorem occ_lc_shape_policy:
  assumes "is_array2 r c ap"
  shows "(r = 0 \<longrightarrow> occ_lc ap = Inl ZeroDivisionError)
       \<and> (0 < r \<and> (c = r \<or> c = 1) \<longrightarrow> (\<exists>P. occ_lc ap = Inr P \<and> is_array2 r r P))
       \<and> (r = 1 \<and> 0 < c \<longrightarrow> (\<exists>P. occ_lc ap = Inr P \<and> is_array2 1 c P))
       \<and> ((r = 1 \<and> c = 0) \<or> (2 \<le> r \<and> c \<noteq> 1 \<and> c \<noteq> r) \<longrightarrow> occ_lc ap = Inl ValueError)"
proof (intro conjI impI)
  assume "r = 0"
  then show "occ_lc ap = Inl ZeroDivisionError" using assms occ_lc_zero_rows by blast
next
  assume h: "0 < r \<and> (c = r \<or> c = 1)"
  then have "bdim c r = Some r" by (auto simp: bdim_def)
  then show "\<exists>P. occ_lc ap = Inr P \<and> is_array2 r r P"
    using occ_lc_rect_ok [OF assms] h by blast
next
  assume h: "r = 1 \<and> 0 < c"
  then have "bdim c r = Some c" by (auto simp: bdim_def)
  then show "\<exists>P. occ_lc ap = Inr P \<and> is_array2 1 c P"
    using occ_lc_rect_ok [OF assms, of c] h by auto
next
  assume h: "(r = 1 \<and> c = 0) \<or> (2 \<le> r \<and> c \<noteq> 1 \<and> c \<noteq> r)"
  then show "occ_lc ap = Inl ValueError"
  proof
    assume "r = 1 \<and> c = 0"
    then have "0 < r" "bdim c r = Some 0" by (auto simp: bdim_def)
    then show ?thesis using occ_lc_rect_zero [OF assms] by blast
  next
    assume "2 \<le> r \<and> c \<noteq> 1 \<and> c \<noteq> r"
    then have "0 < r" "bdim c r = None" by (auto simp: bdim_def)
    then show ?thesis using occ_lc_rect_none [OF assms] by blast
  qed
qed

theorem occ_lc_shape_policy_witness:
  "is_array2 1 3 [[1, 1, 1 :: complex]] \<and> \<not> isl (occ_lc [[1, 1, 1]])
   \<and> is_array2 1 3 (projr (occ_lc [[1, 1, 1]]))
   \<and> is_array2 2 3 [[1, 1, 1], [1, 1, 1 :: complex]] \<and> occ_lc [[1, 1, 1], [1, 1, 1]] = Inl ValueError
   \<and> is_array2 2 1 [[1], [1 :: complex]] \<and> \<not> isl (occ_lc [[1], [1]])
   \<and> is_array2 2 2 (projr (occ_lc [[1], [1]]))"
proof -
  have a: "is_array2 1 3 [[1, 1, 1 :: complex]]"
    and b: "is_array2 2 3 [[1, 1, 1], [1, 1, 1 :: complex]]"
    and c: "is_array2 2 1 [[1], [1 :: complex]]"
    by (simp_all add: is_array2_def)
  show ?thesis
    using occ_lc_shape_policy [OF a] occ_lc_shape_policy [OF b] occ_lc_shape_policy [OF c] a b c
    by auto
qed

text \<open>
  Claim C7. For a square aperture of side length \<open>npts\<close>, the array that \<open>occ_lc\<close> returns
  (it returns one whenever the aperture has a cell) is an array of reals of the same shape
  \<open>npts\<close> by \<open>npts\<close>, every entry is non-negative, and every entry is the squared magnitude
  of a value of the unnormalised transform of the modified aperture: nothing rescales it.
\<close>

theorem occ_lc_output_real_nonneg:
  assumes "is_array2 npts npts ap"
  shows "(0 < npts \<longrightarrow> (\<exists>P. occ_lc ap = Inr P))
       \<and> (\<forall>P. occ_lc ap = Inr P \<longrightarrow>
             is_array2 npts npts P \<and> list_all (list_all (\<lambda>v. 0 \<le> v)) P
             \<and> (\<forall>i<npts. \<forall>j<npts. P ! i ! j
                   = (cmod (dft2 (modified ap npts) (nat ((int i - int (npts div 2)) mod int npts))
                                                   (nat ((int j - int (npts div 2)) mod int npts))))\<^sup>2))"
proof (cases "0 < npts")
  case False
  then have "occ_lc ap = Inl ZeroDivisionError" using assms occ_lc_zero_rows by auto
  then show ?thesis using False by simp
next
  case True
  obtain P where P: "occ_lc ap = Inr P" using occ_lc_square [OF assms True] by simp
  have s: "is_array2 npts npts P" using occ_lc_square_shape [OF assms True] P by simp
  have e: "P ! i ! j = (cmod (dft2 (modified ap npts) (nat ((int i - int (npts div 2)) mod int npts))
                                                   (nat ((int j - int (npts div 2)) mod int npts))))\<^sup>2"
    if "i < npts" "j < npts" for i j
    using occ_lc_square_nth [OF assms True that] P by simp
  have "0 \<le> v" if rv: "row \<in> set P" "v \<in> set row" for row v
  proof -
    have l: "length P = npts" using s by (simp add: is_array2_def)
    obtain i where i: "i < npts" "row = P ! i"
      using rv(1) l by (auto simp: in_set_conv_nth)
    then have "length row = npts" using s by (simp add: is_array2_nth)
    then obtain j where j: "j < npts" "v = row ! j"
      using rv(2) by (auto simp: in_set_conv_nth)
    show ?thesis using e [OF i(1) j(1)] i j by simp
  qed
  then have "list_all (list_all (\<lambda>v. 0 \<le> v)) P" by (auto simp: list_all_iff)
  then show ?thesis using P s e by simp
qed

theorem occ_lc_output_real_nonneg_witness:
  "is_array2 1 1 [[1 :: complex]] \<and> occ_lc [[1]] = Inr [[1]]
   \<and> is_array2 1 1 [[1 :: real]] \<and> list_all (list_all (\<lambda>v. 0 \<le> v)) [[1 :: real]]"
proof -
  have a: "is_array2 1 1 [[1 :: complex]]" by (simp add: is_array2_def)
  have "occ_lc [[1]] = Inr [[1]]"
    by (simp add: occ_lc_def nrows_def ncols_def bmul_def bdim_def bidx_def eTerm_def fft2_def
          dft2_def roll_def)
  then show ?thesis using occ_lc_output_real_nonneg [OF a] a by (simp add: is_array2_def)
qed

section \<open>The claims about RingSeg\_ap\<close>

text \<open>
  Claim C2. For every positive even \<open>npts\<close>, wavelength and distance greater than zero,
  ring width \<open>wid\<close>, and transmission function defined on \<open>[-wid/2, wid/2]\<close>, \<open>RingSeg_ap\<close>
  returns an \<open>npts\<close> by \<open>npts\<close> array \<open>ap\<close> together with the grid size
  \<open>gridSz = sqrt(lam * 1e-9 * D / npts)\<close> such that, with \<open>x = (c - npts/2) * gridSz\<close>, the
  cell \<open>ap[r][c]\<close> is \<open>t_r(x)\<close> when \<open>|x| \<le> wid/2\<close> and 1 otherwise. The ring width need
  not be positive for this.
\<close>

theorem RingSeg_ap_transmission:
  assumes "0 < npts" and "even npts" and "0 < lam" and "0 < D"
    and "\<forall>x. \<bar>x\<bar> \<le> wid / 2 \<longrightarrow> \<not> isl (t_r x)"
  shows "\<exists>ap FOV gridSz. RingSeg_ap lam D npts wid t_r = Inr (ap, FOV, gridSz)
           \<and> gridSz = sqrt (lam * (1 / 10 ^ 9) * D / of_int npts)
           \<and> FOV = sqrt (lam * (1 / 10 ^ 9) * D * of_int npts)
           \<and> is_array2 (nat npts) (nat npts) ap
           \<and> (\<forall>r<nat npts. \<forall>c<nat npts.
                 let x = (real c - real_of_int npts / 2) * gridSz
                 in (\<bar>x\<bar> \<le> wid / 2 \<longrightarrow> t_r x = Inr (ap ! r ! c))
                  \<and> (wid / 2 < \<bar>x\<bar> \<longrightarrow> ap ! r ! c = 1))"
proof -
  have a: "0 \<le> lam * (1 / 10 ^ 9) * D" using assms(3,4) by simp
  have e: "real_of_int (int c - int (nat npts div 2)) = real c - real_of_int npts / 2" for c
  proof -
    obtain k where k: "npts = 2 * k" using assms(2) by (auto elim: evenE)
    then have "0 < k" using assms(1) by simp
    then have "int (nat npts div 2) = k" using k by simp
    then show ?thesis using k by simp
  qed
  obtain ap where ap: "RingSeg_ap lam D npts wid t_r
               = Inr (ap, sqrt (lam * (1 / 10 ^ 9) * D * of_int npts), sqrt (lam * (1 / 10 ^ 9) * D / of_int npts))"
      "is_array2 (nat npts) (nat npts) ap"
      "\<forall>r<nat npts. \<forall>c<nat npts.
                 ap ! r ! c = (let x = of_int (int c - int (nat npts div 2)) * sqrt (lam * (1 / 10 ^ 9) * D / of_int npts)
                               in if \<bar>x\<bar> \<le> wid / 2 then projr (t_r x) else 1)"
    using RingSeg_ap_cells [OF assms(1) a assms(5)] by blast
  have "\<forall>r<nat npts. \<forall>c<nat npts.
                 let x = (real c - real_of_int npts / 2) * sqrt (lam * (1 / 10 ^ 9) * D / of_int npts)
                 in (\<bar>x\<bar> \<le> wid / 2 \<longrightarrow> t_r x = Inr (ap ! r ! c))
                  \<and> (wid / 2 < \<bar>x\<bar> \<longrightarrow> ap ! r ! c = 1)"
    using ap(3) assms(5) unfolding e Let_def by auto
  then show ?thesis using ap(1,2) by blast
qed

text \<open>
  The theorem at a ring of width 2 km on 4 samples of spacing 1 km (wavelength \<open>1e9\<close>
  micron, distance 4 km): the offsets are \<open>-2, -1, 0, 1\<close>, so column 0 is outside the ring
  and holds 1, and column 1, on the closed edge of the ring, holds the transmission.
\<close>

theorem RingSeg_ap_transmission_witness:
  "(0 :: int) < 4 \<and> even (4 :: int) \<and> \<not> isl (tF1 (- 1))
   \<and> \<not> isl (RingSeg_ap (10 ^ 9) 4 4 2 tF1)
   \<and> snd (snd (projr (RingSeg_ap (10 ^ 9) 4 4 2 tF1))) = 1
   \<and> fst (projr (RingSeg_ap (10 ^ 9) 4 4 2 tF1)) ! 0 ! 0 = 1
   \<and> fst (projr (RingSeg_ap (10 ^ 9) 4 4 2 tF1)) ! 0 ! 1 = exp (- (1 / 10))
   \<and> fst (projr (RingSeg_ap (10 ^ 9) 4 4 2 tF1)) ! 3 ! 2 = exp (- (1 / 10))"
proof -
  have "\<exists>ap FOV gridSz. RingSeg_ap (10 ^ 9) 4 4 2 tF1 = Inr (ap, FOV, gridSz)
           \<and> gridSz = sqrt (10 ^ 9 * (1 / 10 ^ 9) * 4 / of_int 4)
           \<and> FOV = sqrt (10 ^ 9 * (1 / 10 ^ 9) * 4 * of_int 4)
           \<and> is_array2 (nat 4) (nat 4) ap
           \<and> (\<forall>r<nat 4. \<forall>c<nat 4.
                 let x = (real c - real_of_int 4 / 2) * gridSz
                 in (\<bar>x\<bar> \<le> 2 / 2 \<longrightarrow> tF1 x = Inr (ap ! r ! c))
                  \<and> (2 / 2 < \<bar>x\<bar> \<longrightarrow> ap ! r ! c = 1))"
    by (rule RingSeg_ap_transmission) (simp_all add: tF1_def)
  then obtain ap FOV gridSz
    where r: "RingSeg_ap (10 ^ 9) 4 4 2 tF1 = Inr (ap, FOV, gridSz)"
      and g: "gridSz = sqrt (10 ^ 9 * (1 / 10 ^ 9) * 4 / of_int 4)"
      and c: "\<forall>r<nat 4. \<forall>c<nat 4.
                 let x = (real c - real_of_int 4 / 2) * gridSz
                 in (\<bar>x\<bar> \<le> 2 / 2 \<longrightarrow> tF1 x = Inr (ap ! r ! c))
                  \<and> (2 / 2 < \<bar>x\<bar> \<longrightarrow> ap ! r ! c = 1)"
    by blast
  have g1: "gridSz = 1" unfolding g by simp
  have "ap ! 0 ! 0 = 1"
    using c [rule_format, of 0 0] by (simp add: Let_def g1)
  moreover have "tF1 (- 1) = Inr (ap ! 0 ! 1)"
    using c [rule_format, of 0 1] by (simp add: Let_def g1)
  moreover have "tF1 0 = Inr (ap ! 3 ! 2)"
    using c [rule_format, of 3 2] by (simp add: Let_def g1)
  ultimately show ?thesis unfolding r by (simp add: tF1_def g1)
qed

text \<open>
  Claim C3. For wavelength \<open>lam\<close> in microns, distance \<open>D\<close> in km and positive \<open>npts\<close>,
  \<open>RingSeg_ap\<close> converts the wavelength to km by the factor \<open>1e-9\<close> and returns
  \<open>gridSz = sqrt(lam_km * D / npts)\<close> and \<open>FOV = sqrt(lam_km * D * npts)\<close>, which satisfy
  \<open>FOV = gridSz * npts\<close> in real arithmetic.
\<close>

theorem RingSeg_ap_scale:
  assumes "0 < npts" and "0 < lam" and "0 < D"
    and "\<forall>x. \<bar>x\<bar> \<le> wid / 2 \<longrightarrow> \<not> isl (t_r x)"
  shows "\<exists>ap FOV gridSz. RingSeg_ap lam D npts wid t_r = Inr (ap, FOV, gridSz)
           \<and> gridSz = sqrt (lam * (1 / 10 ^ 9) * D / of_int npts)
           \<and> FOV = sqrt (lam * (1 / 10 ^ 9) * D * of_int npts)
           \<and> FOV = gridSz * of_int npts"
proof -
  have a: "0 \<le> lam * (1 / 10 ^ 9) * D" using assms(2,3) by simp
  have n: "0 < (of_int npts :: real)" using assms(1) by simp
  obtain ap where "RingSeg_ap lam D npts wid t_r
               = Inr (ap, sqrt (lam * (1 / 10 ^ 9) * D * of_int npts), sqrt (lam * (1 / 10 ^ 9) * D / of_int npts))"
    using RingSeg_ap_cells [OF assms(1) a assms(4)] by blast
  then show ?thesis using sqrt_scale [OF n, of "lam * (1 / 10 ^ 9) * D"] by blast
qed

theorem RingSeg_ap_scale_witness:
  "(0 :: int) < 4096 \<and> \<not> isl (RingSeg_ap (1 / 2) (43 * 150000000) 4096 46 tF1)
   \<and> fst (snd (projr (RingSeg_ap (1 / 2) (43 * 150000000) 4096 46 tF1)))
       = snd (snd (projr (RingSeg_ap (1 / 2) (43 * 150000000) 4096 46 tF1))) * 4096"
proof -
  have "\<exists>ap FOV gridSz. RingSeg_ap (1 / 2) (43 * 150000000) 4096 46 tF1 = Inr (ap, FOV, gridSz)
           \<and> gridSz = sqrt ((1 / 2) * (1 / 10 ^ 9) * (43 * 150000000) / of_int 4096)
           \<and> FOV = sqrt ((1 / 2) * (1 / 10 ^ 9) * (43 * 150000000) * of_int 4096)
           \<and> FOV = gridSz * of_int 4096"
    by (rule RingSeg_ap_scale) (simp_all add: tF1_def)
  then obtain ap FOV gridSz
    where "RingSeg_ap (1 / 2) (43 * 150000000) 4096 46 tF1 = Inr (ap, FOV, gridSz)"
      and "FOV = gridSz * of_int 4096"
    by blast
  then show ?thesis by simp
qed

text \<open>
  Claim C8. Every row of the aperture returned by \<open>RingSeg_ap\<close> is the same row: a cell
  depends on its column only.
\<close>

theorem RingSeg_ap_rows_identical:
  assumes "RingSeg_ap lam D npts wid t_r = Inr (ap, FOV, gridSz)"
  shows "is_array2 (nat npts) (nat npts) ap \<and> (\<forall>r1<nat npts. \<forall>r2<nat npts. ap ! r1 = ap ! r2)"
proof -
  have p: "0 < npts" "0 \<le> lam * (1 / 10 ^ 9) * D"
    using RingSeg_ap_Inr_pre [OF assms] by simp_all
  have "ap = replicate (nat npts)
                 (map (\<lambda>x. if \<bar>x\<bar> \<le> 0.5 * wid then projr (t_r x) else 1)
                      (xv_of (sqrt (lam * (1 / 10 ^ 9) * D / of_int npts)) (nat npts)))"
    using assms unfolding RingSeg_ap_char [OF p] by (auto split: sum.splits)
  then show ?thesis by (simp add: is_array2_def list_all_iff xv_of_def)
qed

theorem RingSeg_ap_rows_identical_witness:
  "RingSeg_ap (1 / 2) (43 * 150000000) 4096 46 tF1
     = Inr (projr (RingSeg_ap (1 / 2) (43 * 150000000) 4096 46 tF1))
   \<and> fst (projr (RingSeg_ap (1 / 2) (43 * 150000000) 4096 46 tF1)) ! 0
       = fst (projr (RingSeg_ap (1 / 2) (43 * 150000000) 4096 46 tF1)) ! 4095"
proof -
  obtain ap FOV gridSz
    where r: "RingSeg_ap (1 / 2) (43 * 150000000) 4096 46 tF1 = Inr (ap, FOV, gridSz)"
    using scenario_returns by blast
  have "\<forall>r1<nat 4096. \<forall>r2<nat 4096. ap ! r1 = ap ! r2"
    by (rule RingSeg_ap_rows_identical [OF r, THEN conjunct2])
  then have "ap ! 0 = ap ! 4095" by simp
  then show ?thesis unfolding r by simp
qed

text \<open>
  Claim C9 fails at the precision of its figures: for wavelength 0.5 micron, distance
  \<open>43 * 1.5e8\<close> km and \<open>npts = 4096\<close> the field of view is not within 0.5 of 114 km and the
  grid size is not within 0.00005 of 0.0278 km.
\<close>

theorem scenario_quoted_figures_off:
  "\<not> isl (RingSeg_ap (1 / 2) (43 * 150000000) 4096 46 tF1)
   \<and> \<not> \<bar>fst (snd (projr (RingSeg_ap (1 / 2) (43 * 150000000) 4096 46 tF1))) - 114\<bar> \<le> 1 / 2
   \<and> \<not> \<bar>snd (snd (projr (RingSeg_ap (1 / 2) (43 * 150000000) 4096 46 tF1))) - 0.0278\<bar> \<le> 0.00005"
proof -
  have a: "0 \<le> (1 / 2) * (1 / 10 ^ 9) * (43 * 150000000 :: real)" by simp
  obtain ap where ap: "RingSeg_ap (1 / 2) (43 * 150000000) 4096 46 tF1
               = Inr (ap, sqrt ((1 / 2) * (1 / 10 ^ 9) * (43 * 150000000) * of_int 4096),
                      sqrt ((1 / 2) * (1 / 10 ^ 9) * (43 * 150000000) / of_int 4096))"
    using RingSeg_ap_cells [OF _ a tF1_defined, of 4096] by auto
  have f: "(1 / 2) * (1 / 10 ^ 9) * (43 * 150000000) * of_int 4096 = (132096 / 10 :: real)" by simp
  have g: "(1 / 2) * (1 / 10 ^ 9) * (43 * 150000000) / of_int 4096 = (3225 / 4096000 :: real)" by simp
  have "114.93 < sqrt (132096 / 10)" by (rule real_less_rsqrt) (simp add: power2_eq_square)
  moreover have "0.02805 < sqrt (3225 / 4096000)" by (rule real_less_rsqrt) (simp add: power2_eq_square)
  ultimately show ?thesis unfolding ap f g by simp
qed

text \<open>
  Claim C9, as amended: for these inputs \<open>RingSeg_ap\<close> returns a field of view between
  114.93 and 114.94 km and a grid size between 0.02805 and 0.02806 km, whatever the ring
  width and the transmission function defined on the ring.
\<close>

theorem scenario_scale:
  assumes "\<forall>x. \<bar>x\<bar> \<le> wid / 2 \<longrightarrow> \<not> isl (t_r x)"
  shows "\<exists>ap FOV gridSz. RingSeg_ap (1 / 2) (43 * 150000000) 4096 wid t_r = Inr (ap, FOV, gridSz)
           \<and> 114.93 < FOV \<and> FOV < 114.94 \<and> 0.02805 < gridSz \<and> gridSz < 0.02806"
proof -
  have a: "0 \<le> (1 / 2) * (1 / 10 ^ 9) * (43 * 150000000 :: real)" by simp
  obtain ap where ap: "RingSeg_ap (1 / 2) (43 * 150000000) 4096 wid t_r
               = Inr (ap, sqrt ((1 / 2) * (1 / 10 ^ 9) * (43 * 150000000) * of_int 4096),
                      sqrt ((1 / 2) * (1 / 10 ^ 9) * (43 * 150000000) / of_int 4096))"
    using RingSeg_ap_cells [OF _ a assms, of 4096] by auto
  have f: "(1 / 2) * (1 / 10 ^ 9) * (43 * 150000000) * of_int 4096 = (132096 / 10 :: real)" by simp
  have g: "(1 / 2) * (1 / 10 ^ 9) * (43 * 150000000) / of_int 4096 = (3225 / 4096000 :: real)" by simp
  have "114.93 < sqrt (132096 / 10)" by (rule real_less_rsqrt) (simp add: power2_eq_square)
  moreover have "sqrt (132096 / 10) < 114.94" by (rule real_less_lsqrt) (simp_all add: power2_eq_square)
  moreover have "0.02805 < sqrt (3225 / 4096000)" by (rule real_less_rsqrt) (simp add: power2_eq_square)
  moreover have "sqrt (3225 / 4096000) < 0.02806" by (rule real_less_lsqrt) (simp_all add: power2_eq_square)
  ultimately show ?thesis using ap unfolding f g by blast
qed

theorem scenario_scale_witness:
  "\<not> isl (RingSeg_ap (1 / 2) (43 * 150000000) 4096 46 tF1)
   \<and> 114.93 < fst (snd (projr (RingSeg_ap (1 / 2) (43 * 150000000) 4096 46 tF1)))
   \<and> snd (snd (projr (RingSeg_ap (1 / 2) (43 * 150000000) 4096 46 tF1))) < 0.02806"
  using scenario_scale [OF tF1_defined] by auto

text \<open>
  Claim C10. \<open>RingSeg_ap\<close> calls the transmission function on in-ring offsets only. Its
  result is the same for two transmission functions that agree on \<open>[-wid/2, wid/2]\<close>,
  whatever they do outside; with valid inputs and a function defined on that interval it
  returns and raises nothing; and the array passed to the function, the cells of the grid
  selected by the mask, holds offsets of magnitude at most \<open>wid/2\<close> only.
\<close>

theorem RingSeg_ap_domain_safe:
  "((\<forall>x. \<bar>x\<bar> \<le> wid / 2 \<longrightarrow> t_r x = t_r' x)
       \<longrightarrow> RingSeg_ap lam D npts wid t_r = RingSeg_ap lam D npts wid t_r')
   \<and> (0 < npts \<and> 0 < lam \<and> 0 < D \<and> (\<forall>x. \<bar>x\<bar> \<le> wid / 2 \<longrightarrow> \<not> isl (t_r x))
       \<longrightarrow> \<not> isl (RingSeg_ap lam D npts wid t_r))
   \<and> (\<forall>x\<in>set (bool_index (map (map (\<lambda>x. \<bar>x\<bar> \<le> 0.5 * wid)) grid) grid). \<bar>x\<bar> \<le> wid / 2)"
proof (intro conjI impI)
  assume "\<forall>x. \<bar>x\<bar> \<le> wid / 2 \<longrightarrow> t_r x = t_r' x"
  then have "\<forall>x. \<bar>x\<bar> \<le> 0.5 * wid \<longrightarrow> t_r x = t_r' x" by simp
  then show "RingSeg_ap lam D npts wid t_r = RingSeg_ap lam D npts wid t_r'"
    by (rule RingSeg_ap_agree)
next
  assume h: "0 < npts \<and> 0 < lam \<and> 0 < D \<and> (\<forall>x. \<bar>x\<bar> \<le> wid / 2 \<longrightarrow> \<not> isl (t_r x))"
  then have a: "0 \<le> lam * (1 / 10 ^ 9) * D" by simp
  from h have n: "0 < npts" and t: "\<forall>x. \<bar>x\<bar> \<le> wid / 2 \<longrightarrow> \<not> isl (t_r x)" by simp_all
  show "\<not> isl (RingSeg_ap lam D npts wid t_r)"
    using RingSeg_ap_cells [OF n a t] by auto
next
  show "\<forall>x\<in>set (bool_index (map (map (\<lambda>x. \<bar>x\<bar> \<le> 0.5 * wid)) grid) grid). \<bar>x\<bar> \<le> wid / 2"
    by (simp add: bool_index_map)
qed

theorem RingSeg_ap_domain_safe_witness:
  "\<not> isl (RingSeg_ap (1 / 2) (43 * 150000000) 4096 46 tF1)
   \<and> RingSeg_ap (1 / 2) (43 * 150000000) 4096 46 tF1
     = RingSeg_ap (1 / 2) (43 * 150000000) 4096 46 (\<lambda>x. Inr (exp (- (1 / 10))))"
proof -
  note T = RingSeg_ap_domain_safe
    [of 46 tF1 "\<lambda>x. Inr (exp (- (1 / 10)))" "1 / 2" "43 * 150000000" 4096]
  have 1: "RingSeg_ap (1 / 2) (43 * 150000000) 4096 46 tF1
     = RingSeg_ap (1 / 2) (43 * 150000000) 4096 46 (\<lambda>x. Inr (exp (- (1 / 10))))"
    by (rule T [THEN conjunct1, THEN mp]) (simp add: tF1_def)
  have 2: "\<not> isl (RingSeg_ap (1 / 2) (43 * 150000000) 4096 46 tF1)"
    by (rule T [THEN conjunct2, THEN conjunct1, THEN mp]) (simp add: tF1_def)
  show ?thesis using 1 2 by (intro conjI)
qed

section \<open>The claim about the baseline normalisation\<close>

text \<open>
  Claim C6. Let the observers' plane field be square with more than 2048 rows, and let the
  baseline window, the first 100 cells of row 2048, hold positive values only. Then the
  baseline \<open>bg\<close> is positive, the field divided by \<open>bg\<close> has baseline exactly 1, and a second
  normalisation leaves the normalised field unchanged.
\<close>

theorem baseline_normalization_idempotent:
  assumes "is_array2 npts npts opF" and "2048 < npts"
    and "\<forall>v\<in>set (take 100 (opF ! 2048)). 0 < v"
  shows "\<exists>bg N. baseline opF = Inr bg \<and> 0 < bg
            \<and> normalize opF = Inr N \<and> N = map (map (\<lambda>v. v / bg)) opF
            \<and> baseline N = Inr 1 \<and> normalize N = Inr N"
proof -
  define w where "w = take 100 (opF ! 2048)"
  have l: "length opF = npts" using assms(1) by (simp add: is_array2_def)
  have "length (opF ! 2048) = npts" using assms(1,2) by (rule is_array2_nth)
  then have "length w = 100" using assms(2) by (simp add: w_def)
  then have ne: "w \<noteq> []" by auto
  obtain bg where bg: "np_median w = Inr bg" "0 < bg"
    using np_median_pos [OF ne] assms(3) unfolding w_def by blast
  define N where "N = map (map (\<lambda>v. v / bg)) opF"
  have b: "baseline opF = Inr bg"
    using assms(2) l bg(1) by (simp add: baseline_def nrows_def w_def)
  have nz: "normalize opF = Inr N"
    using bg(2) by (simp add: normalize_def b N_def)
  have "take 100 (N ! 2048) = map (\<lambda>v. v / bg) w"
    using assms(2) l by (simp add: N_def w_def take_map)
  moreover have "np_median (map (\<lambda>v. v / bg) w) = Inr (bg / bg)"
    by (rule np_median_scale [OF bg(2) ne bg(1)])
  ultimately have b1: "baseline N = Inr 1"
    using assms(2) l bg(2) by (simp add: baseline_def nrows_def N_def)
  have "map (map (\<lambda>v. v / 1)) N = N" by (simp add: map_idI)
  then have "normalize N = Inr N" by (simp add: normalize_def b1)
  then show ?thesis using b bg(2) nz b1 N_def by blast
qed

theorem baseline_normalization_idempotent_witness:
  "is_array2 2049 2049 (replicate 2049 (replicate 2049 (2 :: real)))
   \<and> \<not> isl (normalize (replicate 2049 (replicate 2049 2)))
   \<and> baseline (projr (normalize (replicate 2049 (replicate 2049 2)))) = Inr 1"
proof -
  define X where "X = replicate 2049 (replicate 2049 (2 :: real))"
  have a: "is_array2 2049 2049 X"
    by (simp add: X_def is_array2_def list_all_iff)
  have n: "(2048 :: nat) < 2049" by simp
  have "X ! 2048 = replicate 2049 2" unfolding X_def by (rule nth_replicate) simp
  then have w: "\<forall>v\<in>set (take 100 (X ! 2048)). 0 < v"
    by (simp)
  obtain bg N where "normalize X = Inr N" "baseline N = Inr 1"
    using baseline_normalization_idempotent [OF a n w] by blast
  then have "\<not> isl (normalize X) \<and> baseline (projr (normalize X)) = Inr 1" by simp
  then show ?thesis using a unfolding X_def by blast
qed

section \<open>The claim about mirror symmetry\<close>

text \<open>
  Claim C5. Let \<open>npts\<close> be positive and even, wavelength and distance positive, and let the
  transmission function be defined and even on \<open>[-wid/2, wid/2]\<close>. Then the field computed
  by \<open>RingSeg_ap\<close> followed by \<open>occ_lc\<close> exists, and its row through the ring midline, the
  row \<open>n2 = npts/2\<close>, is symmetric about the centre index: \<open>row[n2 + k] = row[n2 - k]\<close> for
  every \<open>0 < k < n2\<close>. The equality is one of exact arithmetic.
\<close>

theorem ring_field_mirror_symmetric:
  assumes "0 < npts" and "even npts" and "0 < lam" and "0 < D"
    and dfn: "\<forall>x. \<bar>x\<bar> \<le> wid / 2 \<longrightarrow> \<not> isl (t_r x)"
    and ev: "\<forall>x. \<bar>x\<bar> \<le> wid / 2 \<longrightarrow> t_r (- x) = t_r x"
  shows "\<exists>P. ring_field lam D npts wid t_r = Inr P
           \<and> (\<forall>k. 0 < k \<and> k < nat npts div 2 \<longrightarrow>
                 P ! (nat npts div 2) ! (nat npts div 2 + k) = P ! (nat npts div 2) ! (nat npts div 2 - k))"
proof -
  define n where "n = nat npts"
  define n2 where "n2 = n div 2"
  define gs where "gs = sqrt (lam * (1 / 10 ^ 9) * D / of_int npts)"
  define g where "g = (\<lambda>x. if \<bar>x\<bar> \<le> 0.5 * wid then projr (t_r x) else 1)"
  define ap where "ap = replicate n (map g (xv_of gs n))"
  define A where "A = map (map complex_of_real) ap"
  define M where "M = modified A n"
  have n: "0 < n" and en: "even n" using assms(1,2) by (simp_all add: n_def even_nat_iff)
  have a: "0 \<le> lam * (1 / 10 ^ 9) * D" using assms(3,4) by simp
  have d: "\<forall>x. \<bar>x\<bar> \<le> 0.5 * wid \<longrightarrow> \<not> isl (t_r x)" using dfn by simp
  have R: "RingSeg_ap lam D npts wid t_r = Inr (ap, sqrt (lam * (1 / 10 ^ 9) * D * of_int npts), gs)"
    unfolding ap_def g_def gs_def n_def by (rule RingSeg_ap_valid [OF assms(1) a d])
  have F: "ring_field lam D npts wid t_r = occ_lc A"
    by (simp add: ring_field_def R A_def)
  have sA: "is_array2 n n A"
    by (simp add: A_def ap_def is_array2_def list_all_iff xv_of_def)
  have cell: "A ! r ! c = complex_of_real (g (xv_of gs n ! c))" if "r < n" "c < n" for r c
    using that by (simp add: A_def ap_def xv_of_def)
  have gev: "g (- x) = g x" for x using ev by (simp add: g_def)
  have symA: "A ! r ! ((n - c) mod n) = A ! r ! c" if "r < n" "c < n" for r c
  proof (cases "c = 0")
    case True
    then show ?thesis using n by simp
  next
    case False
    then have s: "(n - c) mod n = n - c" "n - c < n" using n that(2) by simp_all
    have "xv_of gs n ! (n - c) = - (xv_of gs n ! c)"
      using False that(2) by (intro xv_of_reflect [OF en]) simp_all
    then show ?thesis using that s by (simp add: cell gev)
  qed
  have symM: "M ! r ! ((n - c) mod n) = M ! r ! c" if "r < n" "c < n" for r c
    unfolding M_def using en n that symA [OF that] by (rule modified_reflect)
  have sM: "nrows M = n" "ncols M = n" using n by (simp_all add: M_def modified_shape)
  have D: "dft2 M i ((n - l) mod n) = dft2 M i l" if "l < n" for i l
    using sM n that symM by (rule dft2_reflect)
  obtain P where P: "occ_lc A = Inr P" using occ_lc_square [OF sA n] by simp
  have entry: "P ! i ! j = (cmod (dft2 M (nat ((int i - int n2) mod int n))
                                        (nat ((int j - int n2) mod int n))))\<^sup>2"
    if "i < n" "j < n" for i j
    using occ_lc_square_nth [OF sA n that] P by (simp add: M_def n2_def)
  have "P ! n2 ! (n2 + k) = P ! n2 ! (n2 - k)" if k: "0 < k" "k < n2" for k
  proof -
    have b: "n2 < n" "n2 + k < n" "n2 - k < n" "k < n" "k \<le> n2"
      using k n en by (auto simp: n2_def elim!: evenE)
    have "P ! n2 ! (n2 + k) = (cmod (dft2 M (nat ((int n2 - int n2) mod int n)) k))\<^sup>2"
      using entry [OF b(1,2)] by (simp only: shift_plus [OF b(4)])
    moreover have "P ! n2 ! (n2 - k) = (cmod (dft2 M (nat ((int n2 - int n2) mod int n)) (n - k)))\<^sup>2"
      using entry [OF b(1,3)] by (simp only: shift_minus [OF k(1) b(5,4)])
    moreover have "dft2 M i (n - k) = dft2 M i k" for i
      using D [OF b(4), of i] b(4) k(1) by simp
    ultimately show ?thesis by simp
  qed
  then show ?thesis unfolding F P n2_def n_def by blast
qed

theorem ring_field_mirror_symmetric_witness:
  "(0 :: int) < 4096 \<and> even (4096 :: int) \<and> tF1 (- 1) = tF1 1
   \<and> \<not> isl (ring_field (1 / 2) (43 * 150000000) 4096 46 tF1)
   \<and> projr (ring_field (1 / 2) (43 * 150000000) 4096 46 tF1) ! 2048 ! 2049
     = projr (ring_field (1 / 2) (43 * 150000000) 4096 46 tF1) ! 2048 ! 2047"
proof -
  have "\<exists>P. ring_field (1 / 2) (43 * 150000000) 4096 46 tF1 = Inr P
           \<and> (\<forall>k. 0 < k \<and> k < nat 4096 div 2 \<longrightarrow>
                 P ! (nat 4096 div 2) ! (nat 4096 div 2 + k) = P ! (nat 4096 div 2) ! (nat 4096 div 2 - k))"
    by (rule ring_field_mirror_symmetric) (simp_all add: tF1_def)
  then obtain P where P: "ring_field (1 / 2) (43 * 150000000) 4096 46 tF1 = Inr P"
    and s: "\<forall>k. 0 < k \<and> k < nat 4096 div 2 \<longrightarrow>
                 P ! (nat 4096 div 2) ! (nat 4096 div 2 + k) = P ! (nat 4096 div 2) ! (nat 4096 div 2 - k)"
    by blast
  have "P ! 2048 ! 2049 = P ! 2048 ! 2047" using s [rule_format, of 1] by simp
  then show ?thesis unfolding P by (simp add: tF1_def)
qed

end
